theory Spec2Isabelle
  imports Complex_Main
begin

section \<open>Data model\<close>

text \<open>
  The operator \<^verbatim>\<open>RenderSpriteSheet\<close> of \<^verbatim>\<open>operators/renderSpriteSheet.py\<close> renders every
  action of a scene, one frame per timer tick. An action has a name, a frame range (a pair
  of floating point bounds, read here as reals: only \<^verbatim>\<open>math.floor\<close> and \<^verbatim>\<open>math.ceil\<close> are
  applied to them) and an ordered collection of pose markers, each with an integer frame.
\<close>

record marker =
  marker_name :: string
  frame :: int

record action =
  name :: string
  frame_range :: "real \<times> real"
  pose_markers :: "marker list"

text \<open>
  The state gathers what the operator reads and writes: its own fields (the leading
  underscore of the source dropped), the fields of \<^verbatim>\<open>ProgressPropertyGroup\<close>, the flag
  \<^verbatim>\<open>onlyRenderMarkedFrames\<close> of \<^verbatim>\<open>SpriteSheetPropertyGroup\<close>, the scene's current frame and
  the action assigned to the target object. The calls into collaborators are kept as logs:
  \<open>rendered\<close> lists the frames passed to \<^verbatim>\<open>render_tile\<close>, \<open>handoffs\<close> the \<^verbatim>\<open>animations\<close>
  payload of each run of \<^verbatim>\<open>finish\<close>, \<open>reports\<close> the messages of \<^verbatim>\<open>self.report\<close>.
  \<open>timer\<close> tells whether the window manager's timer is registered.
\<close>

record state =
  actions :: "action list"
  action_index :: nat
  frame_queue :: "int list"
  frame_queue_index :: nat
  animation_descs :: "(string \<times> int) list"
  global_frame_end :: int
  timer :: bool
  onlyRenderMarkedFrames :: bool
  rendering :: bool
  success :: bool
  actionTotal :: nat
  actionName :: string
  actionIndex :: nat
  tileTotal :: nat
  tileIndex :: int
  frame_current :: int
  target_action :: "string option"
  rendered :: "int list"
  handoffs :: "(string \<times> int) list list"
  reports :: "(string \<times> string) list"

datatype event = ESC | TIMER | OTHER

datatype result = RUNNING_MODAL | CANCELLED | FINISHED | PASS_THROUGH

datatype error = IndexError

section \<open>The operator\<close>

text \<open>\<^verbatim>\<open>frame_count\<close> returns the width of a frame range and its rounded bounds.\<close>

definition frame_count :: "real \<times> real \<Rightarrow> int \<times> int \<times> int" where
  "frame_count fr =
     (let frameMin = \<lfloor>fst fr\<rfloor>;
          frameMax = \<lceil>snd fr\<rceil>
      in (frameMax - frameMin, frameMin, frameMax))"

text \<open>
  \<^verbatim>\<open>setup_next_action\<close> makes the action at \<open>action_index\<close> current. Reading
  \<^verbatim>\<open>self._actions[self._action_index]\<close> out of range raises \<^verbatim>\<open>IndexError\<close>. The loop over
  the markers appends one frame after the other; \<^verbatim>\<open>range(frameMin, frameMax + 1)\<close> is the
  list \<open>[frameMin..frameMax]\<close>, empty when \<open>frameMax < frameMin\<close>. The target object and
  its animation data are taken to exist.
\<close>

definition setup_next_action :: "state \<Rightarrow> error + state" where
  "setup_next_action s =
     (if action_index s < length (actions s) then
        (let current_action = actions s ! action_index s;
             s1 = s\<lparr>actionName := name current_action, actionIndex := action_index s\<rparr>;
             s2 = s1\<lparr>target_action := Some (name current_action)\<rparr>;
             s3 = s2\<lparr>frame_queue := [], frame_queue_index := 0\<rparr>;
             actionPoseMarkers = pose_markers current_action;
             s4 = (if onlyRenderMarkedFrames s3 \<and> actionPoseMarkers \<noteq> []
                      \<and> length actionPoseMarkers > 0
                   then foldl (\<lambda>t m. t\<lparr>frame_queue := frame_queue t @ [frame m]\<rparr>)
                          s3 actionPoseMarkers
                   else (case frame_count (frame_range current_action) of
                           (_, frameMin, frameMax) \<Rightarrow>
                             s3\<lparr>frame_queue := [frameMin..frameMax]\<rparr>));
             s5 = s4\<lparr>tileTotal := length (frame_queue s4)\<rparr>;
             s6 = (case frame_count (frame_range current_action) of
                     (count, _, _) \<Rightarrow>
                       s5\<lparr>global_frame_end := global_frame_end s5 + count\<rparr>)
         in Inr (s6\<lparr>animation_descs :=
                      animation_descs s6 @ [(name current_action, global_frame_end s6)]\<rparr>))
      else Inl IndexError)"

text \<open>
  \<^verbatim>\<open>process_step\<close>: when the queue of the current action is exhausted, move to the next
  action and set it up if there is one; otherwise render the frame at the queue position.
\<close>

definition process_step :: "state \<Rightarrow> error + state" where
  "process_step s =
     (if frame_queue_index s \<ge> length (frame_queue s) then
        (let s1 = s\<lparr>action_index := action_index s + 1\<rparr>
         in if action_index s1 < length (actions s1) then setup_next_action s1 else Inr s1)
      else
        (let frame_num = frame_queue s ! frame_queue_index s;
             s1 = s\<lparr>frame_current := frame_num, tileIndex := frame_num\<rparr>;
             s2 = s1\<lparr>rendered := rendered s1 @ [frame_num]\<rparr>
         in Inr (s2\<lparr>frame_queue_index := frame_queue_index s2 + 1\<rparr>)))"

text \<open>
  \<^verbatim>\<open>finish\<close> removes the timer, runs the assembler, writes the metadata (logged with its
  \<^verbatim>\<open>animations\<close> field) and sets the progress flags. \<^verbatim>\<open>cancel\<close> removes the timer and
  clears \<open>rendering\<close>. The assembler process and the file system are taken to succeed, and
  removing a timer that is no longer registered is taken to do nothing.
\<close>

definition finish :: "state \<Rightarrow> state" where
  "finish s =
     (let s1 = s\<lparr>timer := False\<rparr>;
          s2 = s1\<lparr>handoffs := handoffs s1 @ [animation_descs s1]\<rparr>
      in s2\<lparr>rendering := False, success := True\<rparr>)"

definition cancel :: "state \<Rightarrow> result \<times> state" where
  "cancel s =
     (let s1 = s\<lparr>timer := False\<rparr>;
          s2 = s1\<lparr>rendering := False\<rparr>;
          s3 = s2\<lparr>reports := reports s2 @ [(''INFO'', ''Render Cancelled'')]\<rparr>
      in (CANCELLED, s3))"

definition modal :: "event \<Rightarrow> state \<Rightarrow> error + (result \<times> state)" where
  "modal ev s =
     (if ev = ESC then Inr (cancel s)
      else if ev = TIMER then
        (case process_step s of
           Inl e \<Rightarrow> Inl e
         | Inr s1 \<Rightarrow>
             if action_index s1 \<ge> length (actions s1) then Inr (FINISHED, finish s1)
             else Inr (PASS_THROUGH, s1))
      else Inr (PASS_THROUGH, s))"

text \<open>\<^verbatim>\<open>invoke\<close> takes \<^verbatim>\<open>bpy.data.actions\<close> as its first argument.\<close>

definition invoke :: "action list \<Rightarrow> state \<Rightarrow> error + (result \<times> state)" where
  "invoke data_actions s =
     (let s1 = s\<lparr>rendering := True, success := False, actionTotal := length data_actions\<rparr>;
          s2 = s1\<lparr>actions := data_actions, action_index := 0,
                  animation_descs := [], global_frame_end := 0\<rparr>
      in if actions s2 = [] then
           Inr (CANCELLED, s2\<lparr>reports := reports s2 @ [(''WARNING'', ''No actions found'')]\<rparr>)
         else
           (case setup_next_action s2 of
              Inl e \<Rightarrow> Inl e
            | Inr s3 \<Rightarrow> Inr (RUNNING_MODAL, s3\<lparr>timer := True\<rparr>)))"

text \<open>
  The window manager is the driving loop: it passes each event to \<^verbatim>\<open>modal\<close> for as long as
  \<^verbatim>\<open>modal\<close> answers \<^verbatim>\<open>PASS_THROUGH\<close>, and drops the handler at the first \<^verbatim>\<open>FINISHED\<close> or
  \<^verbatim>\<open>CANCELLED\<close>. \<open>drive es s\<close> feeds the events \<open>es\<close> in order and returns the last answer.
\<close>

fun drive :: "event list \<Rightarrow> state \<Rightarrow> error + (result \<times> state)" where
  "drive [] s = Inr (PASS_THROUGH, s)"
| "drive (ev # es) s =
     (case modal ev s of
        Inl e \<Rightarrow> Inl e
      | Inr (r, s1) \<Rightarrow> if r = PASS_THROUGH then drive es s1 else Inr (r, s1))"

section \<open>Specification vocabulary\<close>

text \<open>
  The frame enumerator, in the words of the specification: the marked frames in the order of
  the action when the flag is set and the action has a marker, the inclusive integer
  sequence from the floor of the start to the ceiling of the end otherwise.
\<close>

definition FrameEnumerator :: "action \<Rightarrow> bool \<Rightarrow> int list" where
  "FrameEnumerator a onlyMarked =
     (if onlyMarked \<and> pose_markers a \<noteq> [] then map frame (pose_markers a)
      else [\<lfloor>fst (frame_range a)\<rfloor>..\<lceil>snd (frame_range a)\<rceil>])"

text \<open>The interval-derived count of an action, and its running total over a prefix.\<close>

definition interval_count :: "action \<Rightarrow> int" where
  "interval_count a = \<lceil>snd (frame_range a)\<rceil> - \<lfloor>fst (frame_range a)\<rfloor>"

definition cumulative :: "action list \<Rightarrow> nat \<Rightarrow> int" where
  "cumulative acts n = sum_list (map interval_count (take n acts))"

text \<open>The descriptors of the first \<open>n\<close> actions: each name with the running total.\<close>

definition descs_upto :: "action list \<Rightarrow> nat \<Rightarrow> (string \<times> int) list" where
  "descs_upto acts n = map (\<lambda>j. (name (acts ! j), cumulative acts (Suc j))) [0..<n]"

text \<open>
  The number of timer ticks a running operator still needs: the frames left in the current
  queue, the tick that leaves the current action, and a queue and a tick for each later
  action.
\<close>

definition remaining :: "state \<Rightarrow> nat" where
  "remaining s =
     (length (frame_queue s) - frame_queue_index s) + 1 +
     sum_list (map (\<lambda>a. length (FrameEnumerator a (onlyRenderMarkedFrames s)) + 1)
                (drop (Suc (action_index s)) (actions s)))"

text \<open>
  The invariant of a run. \<open>b\<close> is the state the run started from, with the action list
  in place; it fixes the action list, the flag and the logs the run extends.
\<close>

definition run_inv :: "state \<Rightarrow> state \<Rightarrow> bool" where
  "run_inv b s \<longleftrightarrow>
     actions s = actions b \<and>
     onlyRenderMarkedFrames s = onlyRenderMarkedFrames b \<and>
     action_index s < length (actions s) \<and>
     frame_queue_index s \<le> length (frame_queue s) \<and>
     frame_queue s = FrameEnumerator (actions s ! action_index s) (onlyRenderMarkedFrames s) \<and>
     global_frame_end s = cumulative (actions s) (Suc (action_index s)) \<and>
     animation_descs s = descs_upto (actions s) (Suc (action_index s)) \<and>
     rendered s = rendered b
        @ concat (map (\<lambda>a. FrameEnumerator a (onlyRenderMarkedFrames s))
                   (take (action_index s) (actions s)))
        @ take (frame_queue_index s) (frame_queue s) \<and>
     handoffs s = handoffs b \<and>
     reports s = reports b \<and>
     \<not> success s \<and> rendering s \<and> timer s"

subsection \<open>Example inputs\<close>

text \<open>A fresh operator: the class defaults, idle progress properties and empty logs.\<close>

definition fresh :: "bool \<Rightarrow> state" where
  "fresh only =
     \<lparr>actions = [], action_index = 0, frame_queue = [], frame_queue_index = 0,
      animation_descs = [], global_frame_end = 0, timer = False,
      onlyRenderMarkedFrames = only, rendering = False, success = False,
      actionTotal = 0, actionName = [], actionIndex = 0, tileTotal = 0, tileIndex = 0,
      frame_current = 0, target_action = None, rendered = [], handoffs = [],
      reports = []\<rparr>"

definition mk_action :: "string \<Rightarrow> real \<Rightarrow> real \<Rightarrow> int list \<Rightarrow> action" where
  "mk_action n lo hi ms =
     \<lparr>name = n, frame_range = (lo, hi),
      pose_markers = map (\<lambda>f. \<lparr>marker_name = ''m'', frame = f\<rparr>) ms\<rparr>"

section \<open>Stepping lemmas\<close>

lemma append_markers:
  "foldl (\<lambda>t m. t\<lparr>frame_queue := frame_queue t @ [frame m]\<rparr>) s ms
     = s\<lparr>frame_queue := frame_queue s @ map frame ms\<rparr>"
  by (induction ms arbitrary: s) simp_all

lemma setup_next_action_eq:
  assumes "action_index s < length (actions s)"
  shows "setup_next_action s =
     Inr (s\<lparr>actionName := name (actions s ! action_index s),
            actionIndex := action_index s,
            target_action := Some (name (actions s ! action_index s)),
            frame_queue := FrameEnumerator (actions s ! action_index s) (onlyRenderMarkedFrames s),
            frame_queue_index := 0,
            tileTotal := length (FrameEnumerator (actions s ! action_index s) (onlyRenderMarkedFrames s)),
            global_frame_end := global_frame_end s + interval_count (actions s ! action_index s),
            animation_descs := animation_descs s @
              [(name (actions s ! action_index s),
                global_frame_end s + interval_count (actions s ! action_index s))]\<rparr>)"
  using assms
  by (simp add: setup_next_action_def Let_def frame_count_def FrameEnumerator_def
      interval_count_def append_markers)

lemma cumulative_Suc:
  "n < length acts \<Longrightarrow> cumulative acts (Suc n) = cumulative acts n + interval_count (acts ! n)"
  by (simp add: cumulative_def take_Suc_conv_app_nth)

lemma descs_upto_Suc:
  "descs_upto acts (Suc n) = descs_upto acts n @ [(name (acts ! n), cumulative acts (Suc n))]"
  by (simp add: descs_upto_def)

lemma modal_render:
  assumes "frame_queue_index s < length (frame_queue s)"
      and "action_index s < length (actions s)"
  shows "modal TIMER s =
     Inr (PASS_THROUGH,
          s\<lparr>frame_current := frame_queue s ! frame_queue_index s,
            tileIndex := frame_queue s ! frame_queue_index s,
            rendered := rendered s @ [frame_queue s ! frame_queue_index s],
            frame_queue_index := frame_queue_index s + 1\<rparr>)"
  using assms by (simp add: modal_def process_step_def Let_def)

lemma modal_next_action:
  assumes "length (frame_queue s) \<le> frame_queue_index s"
      and "Suc (action_index s) < length (actions s)"
  shows "modal TIMER s =
     Inr (PASS_THROUGH,
          s\<lparr>action_index := Suc (action_index s),
            actionName := name (actions s ! Suc (action_index s)),
            actionIndex := Suc (action_index s),
            target_action := Some (name (actions s ! Suc (action_index s))),
            frame_queue := FrameEnumerator (actions s ! Suc (action_index s)) (onlyRenderMarkedFrames s),
            frame_queue_index := 0,
            tileTotal := length (FrameEnumerator (actions s ! Suc (action_index s)) (onlyRenderMarkedFrames s)),
            global_frame_end := global_frame_end s + interval_count (actions s ! Suc (action_index s)),
            animation_descs := animation_descs s @
              [(name (actions s ! Suc (action_index s)),
                global_frame_end s + interval_count (actions s ! Suc (action_index s)))]\<rparr>)"
  using assms by (simp add: modal_def process_step_def Let_def setup_next_action_eq)

lemma modal_last:
  assumes "length (frame_queue s) \<le> frame_queue_index s"
      and "length (actions s) \<le> Suc (action_index s)"
  shows "modal TIMER s =
     Inr (FINISHED,
          s\<lparr>action_index := Suc (action_index s),
            timer := False,
            handoffs := handoffs s @ [animation_descs s],
            rendering := False, success := True\<rparr>)"
  using assms by (simp add: modal_def process_step_def Let_def finish_def)

lemma run_inv_render:
  assumes "run_inv b s" and "frame_queue_index s < length (frame_queue s)"
  shows "\<exists>s'. modal TIMER s = Inr (PASS_THROUGH, s') \<and> run_inv b s'
            \<and> Suc (remaining s') = remaining s"
proof -
  from assms(1) have ai: "action_index s < length (actions s)"
    by (auto simp: run_inv_def)
  note m = modal_render [OF assms(2) ai]
  have "run_inv b (s\<lparr>frame_current := frame_queue s ! frame_queue_index s,
            tileIndex := frame_queue s ! frame_queue_index s,
            rendered := rendered s @ [frame_queue s ! frame_queue_index s],
            frame_queue_index := frame_queue_index s + 1\<rparr>)"
    using assms unfolding run_inv_def by (auto simp: take_Suc_conv_app_nth)
  moreover have "Suc (remaining (s\<lparr>frame_current := frame_queue s ! frame_queue_index s,
            tileIndex := frame_queue s ! frame_queue_index s,
            rendered := rendered s @ [frame_queue s ! frame_queue_index s],
            frame_queue_index := frame_queue_index s + 1\<rparr>)) = remaining s"
    using assms(2) by (simp add: remaining_def)
  ultimately show ?thesis using m by simp
qed

lemma run_inv_next_action:
  assumes "run_inv b s" and "length (frame_queue s) \<le> frame_queue_index s"
      and "Suc (action_index s) < length (actions s)"
  shows "\<exists>s'. modal TIMER s = Inr (PASS_THROUGH, s') \<and> run_inv b s'
            \<and> Suc (remaining s') = remaining s"
proof -
  note m = modal_next_action [OF assms(2,3)]
  from assms(1,2) have full: "frame_queue_index s = length (frame_queue s)"
    by (simp add: run_inv_def)
  have tk: "take (Suc (action_index s)) (actions s)
              = take (action_index s) (actions s) @ [actions s ! action_index s]"
    using assms(3) by (simp add: take_Suc_conv_app_nth)
  have dr: "drop (Suc (action_index s)) (actions s)
              = actions s ! Suc (action_index s) # drop (Suc (Suc (action_index s))) (actions s)"
    using assms(3) by (simp add: Cons_nth_drop_Suc)
  let ?s' = "s\<lparr>action_index := Suc (action_index s),
            actionName := name (actions s ! Suc (action_index s)),
            actionIndex := Suc (action_index s),
            target_action := Some (name (actions s ! Suc (action_index s))),
            frame_queue := FrameEnumerator (actions s ! Suc (action_index s)) (onlyRenderMarkedFrames s),
            frame_queue_index := 0,
            tileTotal := length (FrameEnumerator (actions s ! Suc (action_index s)) (onlyRenderMarkedFrames s)),
            global_frame_end := global_frame_end s + interval_count (actions s ! Suc (action_index s)),
            animation_descs := animation_descs s @
              [(name (actions s ! Suc (action_index s)),
                global_frame_end s + interval_count (actions s ! Suc (action_index s)))]\<rparr>"
  have "run_inv b ?s'"
    using assms full
    by (auto simp: run_inv_def cumulative_Suc [of "Suc (action_index s)"]
        descs_upto_Suc [of _ "Suc (action_index s)"] take_Suc_conv_app_nth)
  moreover have "Suc (remaining ?s') = remaining s"
    using full by (simp add: remaining_def dr)
  ultimately show ?thesis using m by simp
qed

lemma run_inv_last:
  assumes "run_inv b s" and "length (frame_queue s) \<le> frame_queue_index s"
      and "length (actions s) \<le> Suc (action_index s)"
  shows "modal TIMER s =
     Inr (FINISHED,
          s\<lparr>action_index := Suc (action_index s),
            timer := False,
            handoffs := handoffs s @ [animation_descs s],
            rendering := False, success := True\<rparr>) \<and> remaining s = 1"
  using assms modal_last [OF assms(2,3)]
  unfolding run_inv_def by (auto simp: remaining_def)

lemma sum_list_Suc:
  "sum_list (map (\<lambda>a. Suc (f a)) xs) = sum_list (map f xs) + length xs"
  by (induction xs) simp_all

lemma sum_list_Suc_eq_0:
  "sum_list (map (\<lambda>a. Suc (f a)) xs) = 0 \<longleftrightarrow> xs = []"
  by (cases xs) simp_all

lemma invoke_run:
  assumes "acts \<noteq> []"
  shows "\<exists>s0. invoke acts s = Inr (RUNNING_MODAL, s0) \<and> run_inv (s\<lparr>actions := acts\<rparr>) s0
           \<and> action_index s0 = 0 \<and> frame_queue_index s0 = 0
           \<and> remaining s0 =
                sum_list (map (\<lambda>a. length (FrameEnumerator a (onlyRenderMarkedFrames s))) acts)
                  + length acts"
proof -
  obtain a rest where acts: "acts = a # rest"
    using assms by (cases acts) auto
  show ?thesis
    by (simp add: invoke_def Let_def setup_next_action_eq acts run_inv_def cumulative_def
        descs_upto_def remaining_def sum_list_Suc)
qed

lemma run_inv_tick:
  assumes "run_inv b s" and "1 < remaining s"
  shows "\<exists>s'. modal TIMER s = Inr (PASS_THROUGH, s') \<and> run_inv b s'
            \<and> Suc (remaining s') = remaining s"
proof (cases "frame_queue_index s < length (frame_queue s)")
  case True
  then show ?thesis using assms(1) by (rule run_inv_render [rotated])
next
  case False
  then have full: "length (frame_queue s) \<le> frame_queue_index s" by simp
  have "Suc (action_index s) < length (actions s)"
  proof (rule ccontr)
    assume "\<not> Suc (action_index s) < length (actions s)"
    then have "drop (Suc (action_index s)) (actions s) = []" by simp
    with full assms(2) show False by (simp add: remaining_def)
  qed
  with assms(1) full show ?thesis by (rule run_inv_next_action)
qed

lemma run_inv_final:
  assumes "run_inv b s" and "remaining s = 1"
  shows "modal TIMER s =
     Inr (FINISHED,
          s\<lparr>action_index := Suc (action_index s),
            timer := False,
            handoffs := handoffs s @ [animation_descs s],
            rendering := False, success := True\<rparr>)
     \<and> frame_queue_index s = length (frame_queue s)
     \<and> Suc (action_index s) = length (actions s)"
proof -
  from assms(1) have le: "frame_queue_index s \<le> length (frame_queue s)"
    and ai: "action_index s < length (actions s)"
    unfolding run_inv_def by auto
  define rest where "rest = drop (Suc (action_index s)) (actions s)"
  from assms(2) have "length (frame_queue s) - frame_queue_index s = 0"
    and "sum_list (map (\<lambda>a. Suc (length (FrameEnumerator a (onlyRenderMarkedFrames s)))) rest) = 0"
    by (simp_all add: remaining_def rest_def del: drop_eq_Nil drop_eq_Nil2)
  with le have full: "frame_queue_index s = length (frame_queue s)"
    and nil: "drop (Suc (action_index s)) (actions s) = []"
    by (simp_all add: sum_list_Suc_eq_0 rest_def del: drop_eq_Nil drop_eq_Nil2)
  from nil ai have "Suc (action_index s) = length (actions s)" by simp
  with full run_inv_last [OF assms(1)] show ?thesis by simp
qed

lemma drive_append:
  "drive (es @ es') s =
     (case drive es s of
        Inl e \<Rightarrow> Inl e
      | Inr (r, s1) \<Rightarrow> if r = PASS_THROUGH then drive es' s1 else Inr (r, s1))"
  by (induction es arbitrary: s) (auto split: sum.splits)

lemma drive_ticks_pass:
  assumes "run_inv b s" and "k < remaining s"
  shows "\<exists>s'. drive (replicate k TIMER) s = Inr (PASS_THROUGH, s') \<and> run_inv b s'
            \<and> remaining s' + k = remaining s"
  using assms
proof (induction k arbitrary: s)
  case 0
  then show ?case by simp
next
  case (Suc k)
  from Suc.prems have "1 < remaining s" by simp
  with Suc.prems(1) obtain s1 where
    m: "modal TIMER s = Inr (PASS_THROUGH, s1)" and i: "run_inv b s1"
    and r: "Suc (remaining s1) = remaining s"
    using run_inv_tick by blast
  from r Suc.prems(2) have "k < remaining s1" by simp
  with i obtain s' where "drive (replicate k TIMER) s1 = Inr (PASS_THROUGH, s')"
    "run_inv b s'" "remaining s' + k = remaining s1"
    using Suc.IH by blast
  with m r show ?case by simp
qed

lemma drive_ticks_finish:
  assumes "run_inv b s"
  shows "\<exists>t. run_inv b t \<and> frame_queue_index t = length (frame_queue t)
            \<and> Suc (action_index t) = length (actions t)
            \<and> drive (replicate (remaining s) TIMER) s =
                Inr (FINISHED,
                     t\<lparr>action_index := Suc (action_index t),
                       timer := False,
                       handoffs := handoffs t @ [animation_descs t],
                       rendering := False, success := True\<rparr>)"
proof -
  have pos: "remaining s - 1 < remaining s" by (simp add: remaining_def)
  then obtain t where d: "drive (replicate (remaining s - 1) TIMER) s = Inr (PASS_THROUGH, t)"
    and i: "run_inv b t" and r: "remaining t + (remaining s - 1) = remaining s"
    using drive_ticks_pass [OF assms] by blast
  from r pos have "remaining t = 1" by simp
  note f = run_inv_final [OF i this]
  have "replicate (remaining s) TIMER = replicate (remaining s - 1) TIMER @ [TIMER]"
    using pos by (metis Suc_pred' less_nat_zero_code neq0_conv replicate_Suc replicate_append_same)
  then have "drive (replicate (remaining s) TIMER) s = drive [TIMER] t"
    using d by (simp add: drive_append)
  with f i show ?thesis by auto
qed

lemma process_step_total:
  "\<exists>s'. process_step s = Inr s'"
  by (simp add: process_step_def Let_def setup_next_action_eq)

lemma modal_TIMER_rendered:
  "\<exists>r s'. modal TIMER s = Inr (r, s') \<and>
     (if frame_queue_index s < length (frame_queue s)
      then rendered s' = rendered s @ [frame_queue s ! frame_queue_index s]
      else rendered s' = rendered s)"
  by (simp add: modal_def finish_def process_step_def Let_def setup_next_action_eq)

section \<open>Frame enumeration\<close>

text \<open>
  C5. When \<open>onlyRenderMarkedFrames\<close> is set and the action that becomes current has at
  least one pose marker, the frame queue is the list of the markers' frames in the order of
  the action's marker collection, whatever their numeric order.
\<close>

theorem marked_frames_queue:
  assumes "action_index s < length (actions s)"
      and "onlyRenderMarkedFrames s"
      and "pose_markers (actions s ! action_index s) \<noteq> []"
  shows "\<exists>s'. setup_next_action s = Inr s'
            \<and> frame_queue s' = map frame (pose_markers (actions s ! action_index s))"
  using assms by (simp add: setup_next_action_eq FrameEnumerator_def)

theorem marked_frames_queue_witness:
  "\<exists>s'. setup_next_action (fresh True\<lparr>actions := [mk_action ''jump'' 0 20 [12, 3, 7]]\<rparr>) = Inr s'
      \<and> frame_queue s' = [12, 3, 7]"
  using marked_frames_queue [of "fresh True\<lparr>actions := [mk_action ''jump'' 0 20 [12, 3, 7]]\<rparr>"]
  by (simp add: fresh_def mk_action_def)

text \<open>
  C4. When the marked-frames branch is not taken, the frame queue of an action with a
  well-formed interval (start at most end) is the inclusive integer sequence from the floor
  of the start to the ceiling of the end, of length ceiling minus floor plus one; the
  interval [2.2, 5.6] gives the queue [2, 3, 4, 5, 6] of length 5.
\<close>

theorem range_queue:
  assumes "action_index s < length (actions s)"
      and "\<not> (onlyRenderMarkedFrames s \<and> pose_markers (actions s ! action_index s) \<noteq> [])"
      and "fst (frame_range (actions s ! action_index s))
             \<le> snd (frame_range (actions s ! action_index s))"
  shows "\<exists>s'. setup_next_action s = Inr s'
            \<and> frame_queue s' = [\<lfloor>fst (frame_range (actions s ! action_index s))\<rfloor> ..
                                \<lceil>snd (frame_range (actions s ! action_index s))\<rceil>]
            \<and> int (length (frame_queue s'))
                = \<lceil>snd (frame_range (actions s ! action_index s))\<rceil>
                  - \<lfloor>fst (frame_range (actions s ! action_index s))\<rfloor> + 1
            \<and> (frame_range (actions s ! action_index s) = (2.2, 5.6)
                 \<longrightarrow> frame_queue s' = [2, 3, 4, 5, 6] \<and> length (frame_queue s') = 5)"
proof -
  let ?a = "actions s ! action_index s"
  let ?q = "[\<lfloor>fst (frame_range ?a)\<rfloor> .. \<lceil>snd (frame_range ?a)\<rceil>]"
  have le: "\<lfloor>fst (frame_range ?a)\<rfloor> \<le> \<lceil>snd (frame_range ?a)\<rceil>"
    using assms(3) by linarith
  have enum: "FrameEnumerator ?a (onlyRenderMarkedFrames s) = ?q"
    using assms(2) by (auto simp: FrameEnumerator_def)
  have len: "int (length ?q) = \<lceil>snd (frame_range ?a)\<rceil> - \<lfloor>fst (frame_range ?a)\<rfloor> + 1"
    using le by simp
  have ex: "frame_range ?a = (2.2, 5.6) \<longrightarrow> ?q = [2, 3, 4, 5, 6] \<and> length ?q = 5"
    by (simp add: upto.simps)
  show ?thesis
    using len ex by (simp add: setup_next_action_eq [OF assms(1)] enum)
qed

theorem range_queue_witness:
  "\<exists>s'. setup_next_action (fresh True\<lparr>actions := [mk_action ''run'' 2.2 5.6 []]\<rparr>) = Inr s'
      \<and> frame_queue s' = [2, 3, 4, 5, 6] \<and> length (frame_queue s') = 5"
  using range_queue [of "fresh True\<lparr>actions := [mk_action ''run'' 2.2 5.6 []]\<rparr>"]
  by (auto simp add: fresh_def mk_action_def)

section \<open>One step\<close>

text \<open>
  C6. A call of \<open>process_step\<close> never raises and passes at most one frame to the renderer:
  either the queue position is inside the queue, the frame at that position is rendered and
  the position moves on by one within the same action and queue, or nothing is rendered and
  the action index moves on by one.
\<close>

theorem one_render_per_step:
  "\<exists>s'. process_step s = Inr s' \<and>
     (if frame_queue_index s < length (frame_queue s)
      then rendered s' = rendered s @ [frame_queue s ! frame_queue_index s]
         \<and> frame_queue_index s' = frame_queue_index s + 1
         \<and> frame_queue s' = frame_queue s
         \<and> action_index s' = action_index s
      else rendered s' = rendered s \<and> action_index s' = action_index s + 1)"
  by (simp add: process_step_def Let_def setup_next_action_eq)

section \<open>Runs\<close>

text \<open>What a run can come to, for every sequence of events.\<close>

lemma modal_ESC:
  "modal ESC s =
     Inr (CANCELLED,
          s\<lparr>timer := False, rendering := False,
            reports := reports s @ [(''INFO'', ''Render Cancelled'')]\<rparr>)"
  by (simp add: modal_def cancel_def)

lemma modal_OTHER: "modal OTHER s = Inr (PASS_THROUGH, s)"
  by (simp add: modal_def)

lemma remaining_pos: "0 < remaining s"
  by (simp add: remaining_def)

lemma drive_run:
  assumes "run_inv b s"
  shows "\<exists>r s'. drive es s = Inr (r, s') \<and>
     (r = PASS_THROUGH \<and> run_inv b s' \<or>
      r = CANCELLED \<and>
        (\<exists>t. run_inv b t \<and>
           s' = t\<lparr>timer := False, rendering := False,
                  reports := reports t @ [(''INFO'', ''Render Cancelled'')]\<rparr>) \<or>
      r = FINISHED \<and>
        (\<exists>t. run_inv b t \<and> frame_queue_index t = length (frame_queue t)
           \<and> Suc (action_index t) = length (actions t)
           \<and> s' = t\<lparr>action_index := Suc (action_index t), timer := False,
                    handoffs := handoffs t @ [animation_descs t],
                    rendering := False, success := True\<rparr>))"
  using assms
proof (induction es arbitrary: s)
  case Nil
  then show ?case by simp
next
  case (Cons ev es)
  show ?case
  proof (cases ev)
    case ESC
    with Cons.prems show ?thesis by (auto simp: modal_ESC)
  next
    case OTHER
    with Cons.IH [OF Cons.prems] show ?thesis by (simp add: modal_OTHER)
  next
    case TIMER
    show ?thesis
    proof (cases "remaining s = 1")
      case True
      from run_inv_final [OF Cons.prems True] Cons.prems TIMER
      show ?thesis by auto
    next
      case False
      with remaining_pos [of s] have "1 < remaining s" by simp
      with Cons.prems obtain s1 where
        m: "modal TIMER s = Inr (PASS_THROUGH, s1)" and i: "run_inv b s1"
        using run_inv_tick by blast
      from Cons.IH [OF i] m TIMER show ?thesis by simp
    qed
  qed
qed

lemma final_rendered:
  assumes "Suc i = length acts"
  shows "concat (map f (take i acts)) @ f (acts ! i) = concat (map f acts)"
proof -
  have "take (Suc i) acts = acts" using assms by simp
  moreover have "i < length acts" using assms by simp
  then have "take (Suc i) acts = take i acts @ [acts ! i]"
    by (rule take_Suc_conv_app_nth)
  ultimately have "acts = take i acts @ [acts ! i]" by simp
  then have "concat (map f acts) = concat (map f (take i acts @ [acts ! i]))" by simp
  then show ?thesis by simp
qed

text \<open>
  C7. Started on a non-empty action list, the operator answers \<open>PASS_THROUGH\<close> to every
  timer tick before the \<open>n\<close>-th and \<open>FINISHED\<close> to the \<open>n\<close>-th, where \<open>n\<close> is the sum of
  the queue lengths of all actions plus the number of actions: one tick per rendered frame
  and one per action to leave it. The frames rendered are the queues of the actions in
  order. \<open>n\<close> depends on the action list and the flag only.
\<close>

theorem ticks_to_finish:
  assumes "acts \<noteq> []"
      and "n = sum_list (map (\<lambda>a. length (FrameEnumerator a (onlyRenderMarkedFrames s))) acts)
                 + length acts"
  shows "\<exists>s0. invoke acts s = Inr (RUNNING_MODAL, s0) \<and>
     (\<forall>k < n. \<exists>s'. drive (replicate k TIMER) s0 = Inr (PASS_THROUGH, s')) \<and>
     (\<exists>s'. drive (replicate n TIMER) s0 = Inr (FINISHED, s')
          \<and> rendered s' = rendered s
               @ concat (map (\<lambda>a. FrameEnumerator a (onlyRenderMarkedFrames s)) acts)
          \<and> length (rendered s') = length (rendered s) + (n - length acts)
          \<and> action_index s' = length acts
          \<and> success s')"
proof -
  let ?b = "s\<lparr>actions := acts\<rparr>"
  let ?N = "sum_list (map (\<lambda>a. length (FrameEnumerator a (onlyRenderMarkedFrames s))) acts)
              + length acts"
  from invoke_run [OF assms(1), of s] obtain s0 where
    inv: "invoke acts s = Inr (RUNNING_MODAL, s0)" and i: "run_inv ?b s0"
    and r: "remaining s0 = ?N"
    by blast
  have pass: "\<forall>k < ?N. \<exists>s'. drive (replicate k TIMER) s0 = Inr (PASS_THROUGH, s')"
    using drive_ticks_pass [OF i] r by metis
  from drive_ticks_finish [OF i] r obtain t where
    t: "run_inv ?b t" and full: "frame_queue_index t = length (frame_queue t)"
    and last: "Suc (action_index t) = length (actions t)"
    and d: "drive (replicate ?N TIMER) s0 =
              Inr (FINISHED,
                   t\<lparr>action_index := Suc (action_index t), timer := False,
                     handoffs := handoffs t @ [animation_descs t],
                     rendering := False, success := True\<rparr>)"
    by auto
  from t have acts_t: "actions t = acts" and only_t: "onlyRenderMarkedFrames t = onlyRenderMarkedFrames s"
    and q: "frame_queue t = FrameEnumerator (actions t ! action_index t) (onlyRenderMarkedFrames t)"
    and rt: "rendered t = rendered s
        @ concat (map (\<lambda>a. FrameEnumerator a (onlyRenderMarkedFrames t))
                   (take (action_index t) (actions t)))
        @ take (frame_queue_index t) (frame_queue t)"
    unfolding run_inv_def by simp_all
  have rend: "rendered t = rendered s
                @ concat (map (\<lambda>a. FrameEnumerator a (onlyRenderMarkedFrames s)) acts)"
    using rt full q last final_rendered [of "action_index t" acts
        "\<lambda>a. FrameEnumerator a (onlyRenderMarkedFrames s)"]
    by (simp add: acts_t only_t)
  have len: "length (concat (map (\<lambda>a. FrameEnumerator a (onlyRenderMarkedFrames s)) acts))
               = sum_list (map (\<lambda>a. length (FrameEnumerator a (onlyRenderMarkedFrames s))) acts)"
    by (simp add: length_concat comp_def)
  show ?thesis
    using inv pass d rend len last acts_t assms(2) by simp
qed

theorem ticks_to_finish_witness:
  "\<exists>s0. invoke [mk_action ''A'' 0 1 [], mk_action ''B'' 0 20 [3, 7, 12]] (fresh True)
          = Inr (RUNNING_MODAL, s0) \<and>
     (\<forall>k < 7. \<exists>s'. drive (replicate k TIMER) s0 = Inr (PASS_THROUGH, s')) \<and>
     (\<exists>s'. drive (replicate 7 TIMER) s0 = Inr (FINISHED, s')
          \<and> rendered s' = [0, 1, 3, 7, 12] \<and> action_index s' = 2 \<and> success s')"
proof -
  let ?acts = "[mk_action ''A'' 0 1 [], mk_action ''B'' 0 20 [3, 7, 12]]"
  have ne: "?acts \<noteq> []" by simp
  have N: "sum_list (map (\<lambda>a. length (FrameEnumerator a (onlyRenderMarkedFrames (fresh True))))
             ?acts) + length ?acts = 7"
    by (simp add: fresh_def mk_action_def FrameEnumerator_def upto.simps)
  have C: "rendered (fresh True)
             @ concat (map (\<lambda>a. FrameEnumerator a (onlyRenderMarkedFrames (fresh True))) ?acts)
           = [0, 1, 3, 7, 12]"
    by (simp add: fresh_def mk_action_def FrameEnumerator_def upto.simps)
  have L: "length ?acts = 2" by simp
  from ticks_to_finish [OF ne N [symmetric]] show ?thesis
    unfolding C L by blast
qed

section \<open>Metadata\<close>

text \<open>The running total is the sum of the interval-derived counts of the actions begun.\<close>

lemma run_inv_cumulative:
  assumes "run_inv b s"
  shows "global_frame_end s
           = (\<Sum>a\<leftarrow>take (Suc (action_index s)) (actions b).
                 \<lceil>snd (frame_range a)\<rceil> - \<lfloor>fst (frame_range a)\<rfloor>)"
  using assms unfolding run_inv_def cumulative_def
  by (auto simp: interval_count_def [abs_def])

text \<open>
  C1 (as amended). In every run, whatever the events and whichever branch built the queues,
  the cumulative frame count of a state whose action index is \<open>i\<close> is the sum over the
  actions \<open>0..i\<close> of the interval-derived count, ceiling of the end minus floor of the
  start. It is not the sum of the queue lengths: the counterexample below has one action
  with interval [0, 10], whose count is 10 while its queue has 11 frames on the range
  branch and 3 frames on the marked-frames branch.
\<close>

theorem cumulative_count_is_interval_sum:
  assumes "invoke acts s = Inr (RUNNING_MODAL, s0)"
      and "drive es s0 = Inr (r, s')"
  shows "global_frame_end s'
           = (\<Sum>a\<leftarrow>take (Suc (action_index s')) acts.
                 \<lceil>snd (frame_range a)\<rceil> - \<lfloor>fst (frame_range a)\<rfloor>)"
proof -
  let ?b = "s\<lparr>actions := acts\<rparr>"
  from assms(1) have ne: "acts \<noteq> []"
    by (auto simp: invoke_def Let_def)
  from invoke_run [OF ne, of s] assms(1) have i: "run_inv ?b s0" by auto
  from drive_run [OF i, of es] assms(2)
  consider "run_inv ?b s'"
    | t where "run_inv ?b t" "global_frame_end s' = global_frame_end t"
        "action_index s' = action_index t"
    | t where "run_inv ?b t" "global_frame_end s' = global_frame_end t"
        "action_index s' = Suc (action_index t)" "Suc (action_index t) = length (actions t)"
    by auto
  then show ?thesis
  proof cases
    case 1
    then show ?thesis using run_inv_cumulative by fastforce
  next
    case 2
    then show ?thesis using run_inv_cumulative by fastforce
  next
    case 3
    from 3(1) have "actions t = acts" by (simp add: run_inv_def)
    with 3 show ?thesis using run_inv_cumulative [OF 3(1)] by simp
  qed
qed

theorem cumulative_count_is_interval_sum_witness:
  "global_frame_end
     (snd (projr (drive [TIMER, TIMER]
        (snd (projr (invoke [mk_action ''A'' 0 10 [3, 7, 12]] (fresh True)))))))
   = 10"
proof -
  let ?acts = "[mk_action ''A'' 0 10 [3, 7, 12]]"
  let ?s0 = "snd (projr (invoke ?acts (fresh True)))"
  let ?r = "fst (projr (drive [TIMER, TIMER] ?s0))"
  let ?s' = "snd (projr (drive [TIMER, TIMER] ?s0))"
  have a: "invoke ?acts (fresh True) = Inr (RUNNING_MODAL, ?s0)"
    by (simp add: invoke_def setup_next_action_eq Let_def fresh_def)
  have b: "drive [TIMER, TIMER] ?s0 = Inr (?r, ?s')"
    by (simp add: invoke_def setup_next_action_eq Let_def fresh_def mk_action_def
        modal_def process_step_def FrameEnumerator_def)
  have c: "action_index ?s' = 0"
    by (simp add: invoke_def setup_next_action_eq Let_def fresh_def mk_action_def
        modal_def process_step_def FrameEnumerator_def)
  from cumulative_count_is_interval_sum [OF a b] show ?thesis
    by (simp add: c) (simp add: mk_action_def)
qed

theorem cumulative_count_queue_length_counterexample:
  "global_frame_end (snd (projr (invoke [mk_action ''A'' 0 10 []] (fresh False)))) = 10
   \<and> length (frame_queue (snd (projr (invoke [mk_action ''A'' 0 10 []] (fresh False))))) = 11
   \<and> action_index (snd (projr (invoke [mk_action ''A'' 0 10 []] (fresh False)))) = 0
   \<and> global_frame_end (snd (projr (invoke [mk_action ''A'' 0 10 []] (fresh False))))
        \<noteq> int (length (frame_queue (snd (projr (invoke [mk_action ''A'' 0 10 []] (fresh False))))))
   \<and> global_frame_end (snd (projr (invoke [mk_action ''A'' 0 10 [3, 7, 12]] (fresh True)))) = 10
   \<and> length (frame_queue (snd (projr (invoke [mk_action ''A'' 0 10 [3, 7, 12]] (fresh True))))) = 3
   \<and> action_index (snd (projr (invoke [mk_action ''A'' 0 10 [3, 7, 12]] (fresh True)))) = 0
   \<and> global_frame_end (snd (projr (invoke [mk_action ''A'' 0 10 [3, 7, 12]] (fresh True))))
        \<noteq> int (length (frame_queue (snd (projr (invoke [mk_action ''A'' 0 10 [3, 7, 12]] (fresh True))))))"
  by (simp add: invoke_def setup_next_action_eq Let_def fresh_def mk_action_def
      FrameEnumerator_def interval_count_def)

lemma descs_upto_two:
  "descs_upto [a, b] (Suc (Suc 0))
     = [(name a, interval_count a), (name b, interval_count a + interval_count b)]"
  by (simp add: descs_upto_def cumulative_def)

text \<open>
  C2. Whenever an action becomes current, the cumulative counter grows by the
  interval-derived count of that action, ceiling of the end minus floor of the start, and
  the descriptor appended carries the new total; the flag and the markers play no part.
  Two actions named A and B with intervals [0, 10] and [0, 4], with any markers and under
  either value of the flag, run to completion with the descriptor list
  [(A, 10), (B, 14)], which is what the completion handoff receives.
\<close>

theorem metadata_counter_interval_derived:
  assumes "action_index s < length (actions s)"
      and "a = \<lparr>name = ''A'', frame_range = (0, 10), pose_markers = mA\<rparr>"
      and "b = \<lparr>name = ''B'', frame_range = (0, 4), pose_markers = mB\<rparr>"
  shows "(\<exists>s'. setup_next_action s = Inr s'
            \<and> global_frame_end s'
                = global_frame_end s
                  + (\<lceil>snd (frame_range (actions s ! action_index s))\<rceil>
                     - \<lfloor>fst (frame_range (actions s ! action_index s))\<rfloor>)
            \<and> animation_descs s'
                = animation_descs s
                  @ [(name (actions s ! action_index s), global_frame_end s')])
       \<and> (\<exists>s0 n s'. invoke [a, b] s = Inr (RUNNING_MODAL, s0)
            \<and> drive (replicate n TIMER) s0 = Inr (FINISHED, s')
            \<and> animation_descs s' = [(''A'', 10), (''B'', 14)]
            \<and> handoffs s' = handoffs s @ [[(''A'', 10), (''B'', 14)]])"
proof -
  let ?b = "s\<lparr>actions := [a, b]\<rparr>"
  have one: "\<exists>s'. setup_next_action s = Inr s'
            \<and> global_frame_end s'
                = global_frame_end s
                  + (\<lceil>snd (frame_range (actions s ! action_index s))\<rceil>
                     - \<lfloor>fst (frame_range (actions s ! action_index s))\<rfloor>)
            \<and> animation_descs s'
                = animation_descs s
                  @ [(name (actions s ! action_index s), global_frame_end s')]"
    by (simp add: setup_next_action_eq [OF assms(1)] interval_count_def)
  from invoke_run [of "[a, b]" s] obtain s0 where
    inv: "invoke [a, b] s = Inr (RUNNING_MODAL, s0)" and i: "run_inv ?b s0"
    by auto
  from drive_ticks_finish [OF i] obtain t where
    t: "run_inv ?b t" and last: "Suc (action_index t) = length (actions t)"
    and d: "drive (replicate (remaining s0) TIMER) s0 =
              Inr (FINISHED,
                   t\<lparr>action_index := Suc (action_index t), timer := False,
                     handoffs := handoffs t @ [animation_descs t],
                     rendering := False, success := True\<rparr>)"
    by auto
  from t have acts: "actions t = [a, b]" and h: "handoffs t = handoffs s"
    and ds: "animation_descs t = descs_upto (actions t) (Suc (action_index t))"
    unfolding run_inv_def by simp_all
  from last acts have "Suc (action_index t) = Suc (Suc 0)" by simp
  with ds acts have dt: "animation_descs t = [(''A'', 10), (''B'', 14)]"
    by (simp add: descs_upto_two interval_count_def assms(2,3))
  let ?s' = "t\<lparr>action_index := Suc (action_index t), timer := False,
                     handoffs := handoffs t @ [animation_descs t],
                     rendering := False, success := True\<rparr>"
  have "invoke [a, b] s = Inr (RUNNING_MODAL, s0)
            \<and> drive (replicate (remaining s0) TIMER) s0 = Inr (FINISHED, ?s')
            \<and> animation_descs ?s' = [(''A'', 10), (''B'', 14)]
            \<and> handoffs ?s' = handoffs s @ [[(''A'', 10), (''B'', 14)]]"
    using inv d h dt by simp
  then have two: "\<exists>s0 n s'. invoke [a, b] s = Inr (RUNNING_MODAL, s0)
            \<and> drive (replicate n TIMER) s0 = Inr (FINISHED, s')
            \<and> animation_descs s' = [(''A'', 10), (''B'', 14)]
            \<and> handoffs s' = handoffs s @ [[(''A'', 10), (''B'', 14)]]"
    by blast
  from one two show ?thesis by (rule conjI)
qed

theorem metadata_counter_interval_derived_witness:
  "(\<exists>s'. setup_next_action (fresh True\<lparr>actions := [mk_action ''A'' 0 10 [3, 7, 12]]\<rparr>) = Inr s'
        \<and> global_frame_end s' = 10 \<and> length (frame_queue s') = 3
        \<and> animation_descs s' = [(''A'', 10)])
   \<and> (\<exists>s0 n s'. invoke [mk_action ''A'' 0 10 [3, 7, 12], mk_action ''B'' 0 4 []] (fresh True)
           = Inr (RUNNING_MODAL, s0)
        \<and> drive (replicate n TIMER) s0 = Inr (FINISHED, s')
        \<and> animation_descs s' = [(''A'', 10), (''B'', 14)]
        \<and> handoffs s' = [[(''A'', 10), (''B'', 14)]])"
proof -
  let ?s = "fresh True\<lparr>actions := [mk_action ''A'' 0 10 [3, 7, 12]]\<rparr>"
  have q: "\<And>s'. setup_next_action ?s = Inr s' \<Longrightarrow> length (frame_queue s') = 3"
    by (auto simp: setup_next_action_eq fresh_def mk_action_def FrameEnumerator_def)
  have i: "action_index ?s < length (actions ?s)" by (simp add: fresh_def)
  have a: "mk_action ''A'' 0 10 [3, 7, 12]
            = \<lparr>name = ''A'', frame_range = (0, 10), pose_markers = pose_markers (mk_action ''A'' 0 10 [3, 7, 12])\<rparr>"
    by (simp add: mk_action_def)
  have b: "mk_action ''B'' 0 4 []
            = \<lparr>name = ''B'', frame_range = (0, 4), pose_markers = []\<rparr>"
    by (simp add: mk_action_def)
  note w = metadata_counter_interval_derived [OF i a b]
  have e1: "global_frame_end ?s = 0" "animation_descs ?s = []" "actions ?s ! action_index ?s = mk_action ''A'' 0 10 [3, 7, 12]"
    "handoffs ?s = []"
    by (simp_all add: fresh_def)
  have e2: "frame_range (mk_action ''A'' 0 10 [3, 7, 12]) = (0, 10)" "name (mk_action ''A'' 0 10 [3, 7, 12]) = ''A''"
    by (simp_all add: mk_action_def)
  have inv_eq: "invoke [mk_action ''A'' 0 10 [3, 7, 12], mk_action ''B'' 0 4 []] ?s
     = invoke [mk_action ''A'' 0 10 [3, 7, 12], mk_action ''B'' 0 4 []] (fresh True)"
    by (simp add: invoke_def Let_def setup_next_action_def fresh_def)
  from w q show ?thesis
    unfolding e1 e2 inv_eq by fastforce
qed

lemma descs_upto_names:
  "n \<le> length acts \<Longrightarrow> map fst (descs_upto acts n) = map name (take n acts)"
proof (induction n)
  case 0
  then show ?case by (simp add: descs_upto_def)
next
  case (Suc n)
  then show ?case by (simp add: descs_upto_Suc take_Suc_conv_app_nth)
qed

lemma run_inv_descs:
  assumes "run_inv b s"
  shows "action_index s < length (actions b)
       \<and> map fst (animation_descs s) = map name (take (Suc (action_index s)) (actions b))
       \<and> length (animation_descs s) = Suc (action_index s)
       \<and> last (animation_descs s) = (name (actions b ! action_index s), global_frame_end s)"
proof -
  from assms have a: "actions s = actions b" and i: "action_index s < length (actions s)"
    and d: "animation_descs s = descs_upto (actions s) (Suc (action_index s))"
    and g: "global_frame_end s = cumulative (actions s) (Suc (action_index s))"
    unfolding run_inv_def by auto
  from i have "Suc (action_index s) \<le> length (actions s)" by simp
  from descs_upto_names [OF this] d a i g show ?thesis
    by (simp add: descs_upto_Suc) (simp add: descs_upto_def)
qed

text \<open>
  C10. The descriptor of an action and the increment of the cumulative counter are written
  by \<open>setup_next_action\<close>, at the moment the action becomes current: the counter grows by
  the interval-derived count of the action, the descriptor appended carries the new total,
  nothing is rendered and the queue position is 0. So in every state of a run that has not
  finished, running or cancelled, at whatever position of the current queue, the descriptor
  list has one entry per action begun, the last one naming the current action and carrying
  the current total, which already includes the count of the current action.
\<close>

theorem descriptor_appended_when_current:
  assumes "invoke acts s = Inr (RUNNING_MODAL, s0)"
      and "drive es s0 = Inr (r, s')"
      and "r \<noteq> FINISHED"
  shows "action_index s' < length acts
       \<and> map fst (animation_descs s') = map name (take (Suc (action_index s')) acts)
       \<and> length (animation_descs s') = Suc (action_index s')
       \<and> last (animation_descs s') = (name (acts ! action_index s'), global_frame_end s')
       \<and> global_frame_end s'
           = (\<Sum>a\<leftarrow>take (Suc (action_index s')) acts.
                 \<lceil>snd (frame_range a)\<rceil> - \<lfloor>fst (frame_range a)\<rfloor>)
       \<and> (\<forall>t. action_index t < length (actions t) \<longrightarrow>
            (\<exists>t'. setup_next_action t = Inr t'
               \<and> global_frame_end t'
                   = global_frame_end t
                     + (\<lceil>snd (frame_range (actions t ! action_index t))\<rceil>
                        - \<lfloor>fst (frame_range (actions t ! action_index t))\<rfloor>)
               \<and> animation_descs t'
                   = animation_descs t @ [(name (actions t ! action_index t), global_frame_end t')]
               \<and> rendered t' = rendered t
               \<and> frame_queue_index t' = 0))"
proof -
  let ?b = "s\<lparr>actions := acts\<rparr>"
  from assms(1) have ne: "acts \<noteq> []"
    by (auto simp: invoke_def Let_def)
  from invoke_run [OF ne, of s] assms(1) have i: "run_inv ?b s0" by auto
  from drive_run [OF i, of es] assms(2,3)
  obtain t where t: "run_inv ?b t" and eqs: "animation_descs s' = animation_descs t"
    "action_index s' = action_index t" "global_frame_end s' = global_frame_end t"
    by auto
  from run_inv_descs [OF t] eqs have run: "action_index s' < length acts
       \<and> map fst (animation_descs s') = map name (take (Suc (action_index s')) acts)
       \<and> length (animation_descs s') = Suc (action_index s')
       \<and> last (animation_descs s') = (name (acts ! action_index s'), global_frame_end s')"
    by simp
  from run_inv_cumulative [OF t] eqs have total: "global_frame_end s'
           = (\<Sum>a\<leftarrow>take (Suc (action_index s')) acts.
                 \<lceil>snd (frame_range a)\<rceil> - \<lfloor>fst (frame_range a)\<rfloor>)"
    by simp
  have apx: "\<forall>t. action_index t < length (actions t) \<longrightarrow>
            (\<exists>t'. setup_next_action t = Inr t'
               \<and> global_frame_end t'
                   = global_frame_end t
                     + (\<lceil>snd (frame_range (actions t ! action_index t))\<rceil>
                        - \<lfloor>fst (frame_range (actions t ! action_index t))\<rfloor>)
               \<and> animation_descs t'
                   = animation_descs t @ [(name (actions t ! action_index t), global_frame_end t')]
               \<and> rendered t' = rendered t
               \<and> frame_queue_index t' = 0)"
    by (simp add: setup_next_action_eq interval_count_def)
  from run total apx show ?thesis by simp
qed

theorem descriptor_appended_when_current_witness:
  "fst (projr (drive [TIMER, TIMER, ESC]
     (snd (projr (invoke [mk_action ''A'' 0 10 [], mk_action ''B'' 0 4 []] (fresh False))))))
     = CANCELLED
   \<and> rendered (snd (projr (drive [TIMER, TIMER, ESC]
       (snd (projr (invoke [mk_action ''A'' 0 10 [], mk_action ''B'' 0 4 []] (fresh False)))))))
     = [0, 1]
   \<and> map fst (animation_descs (snd (projr (drive [TIMER, TIMER, ESC]
       (snd (projr (invoke [mk_action ''A'' 0 10 [], mk_action ''B'' 0 4 []] (fresh False))))))))
     = [''A'']
   \<and> global_frame_end (snd (projr (drive [TIMER, TIMER, ESC]
       (snd (projr (invoke [mk_action ''A'' 0 10 [], mk_action ''B'' 0 4 []] (fresh False)))))))
     = 10
   \<and> last (animation_descs (snd (projr (drive [TIMER, TIMER, ESC]
       (snd (projr (invoke [mk_action ''A'' 0 10 [], mk_action ''B'' 0 4 []] (fresh False))))))))
     = (''A'', 10)"
proof -
  let ?acts = "[mk_action ''A'' 0 10 [], mk_action ''B'' 0 4 []]"
  let ?s0 = "snd (projr (invoke ?acts (fresh False)))"
  let ?r = "fst (projr (drive [TIMER, TIMER, ESC] ?s0))"
  let ?s' = "snd (projr (drive [TIMER, TIMER, ESC] ?s0))"
  note defs = invoke_def setup_next_action_eq Let_def fresh_def mk_action_def
        modal_def process_step_def cancel_def FrameEnumerator_def upto.simps
  have a: "invoke ?acts (fresh False) = Inr (RUNNING_MODAL, ?s0)"
    by (simp add: invoke_def setup_next_action_eq Let_def fresh_def)
  have b: "drive [TIMER, TIMER, ESC] ?s0 = Inr (?r, ?s')"
    by (simp add: defs)
  have c: "?r = CANCELLED" "action_index ?s' = 0" "rendered ?s' = [0, 1]"
    by (simp_all add: defs)
  from c have "?r \<noteq> FINISHED" by simp
  from descriptor_appended_when_current [OF a b this] c show ?thesis
    by (simp add: mk_action_def)
qed

section \<open>Terminal states\<close>

lemma drive_stops:
  assumes "drive es s = Inr (r, s')" and "r \<noteq> PASS_THROUGH"
  shows "drive (es @ es') s = Inr (r, s')"
  using assms by (simp add: drive_append)

text \<open>
  C8 (as amended). In a run under the driving loop, which drops the handler at the first
  \<open>FINISHED\<close> or \<open>CANCELLED\<close>, \<open>finish\<close> is invoked at most once: whatever the events, the
  handoff log has grown by exactly the final descriptor list when the answer is
  \<open>FINISHED\<close> and not at all otherwise, and the events that follow a final answer never
  reach the operator. The operator has no guard of its own: the counterexample passes one
  more timer tick to \<open>modal\<close> in the finished state, which moves the action index from 1 to
  2 and runs \<open>finish\<close> a second time.
\<close>

theorem handoff_at_most_once:
  assumes "invoke acts s = Inr (RUNNING_MODAL, s0)"
  shows "\<exists>r s'. drive es s0 = Inr (r, s') \<and>
     (if r = FINISHED
      then handoffs s' = handoffs s @ [animation_descs s'] \<and> success s'
      else handoffs s' = handoffs s \<and> \<not> success s') \<and>
     (r \<noteq> PASS_THROUGH \<longrightarrow> drive (es @ es') s0 = Inr (r, s'))"
proof -
  let ?b = "s\<lparr>actions := acts\<rparr>"
  from assms have ne: "acts \<noteq> []"
    by (auto simp: invoke_def Let_def)
  from invoke_run [OF ne, of s] assms have i: "run_inv ?b s0" by auto
  from drive_run [OF i, of es] obtain r s' where d: "drive es s0 = Inr (r, s')"
    and c: "r = PASS_THROUGH \<and> run_inv ?b s' \<or>
      r = CANCELLED \<and>
        (\<exists>t. run_inv ?b t \<and>
           s' = t\<lparr>timer := False, rendering := False,
                  reports := reports t @ [(''INFO'', ''Render Cancelled'')]\<rparr>) \<or>
      r = FINISHED \<and>
        (\<exists>t. run_inv ?b t \<and> frame_queue_index t = length (frame_queue t)
           \<and> Suc (action_index t) = length (actions t)
           \<and> s' = t\<lparr>action_index := Suc (action_index t), timer := False,
                    handoffs := handoffs t @ [animation_descs t],
                    rendering := False, success := True\<rparr>)"
    by blast
  have h: "if r = FINISHED
      then handoffs s' = handoffs s @ [animation_descs s'] \<and> success s'
      else handoffs s' = handoffs s \<and> \<not> success s'"
    using c unfolding run_inv_def by auto
  have "r \<noteq> PASS_THROUGH \<longrightarrow> drive (es @ es') s0 = Inr (r, s')"
    using d by (simp add: drive_stops)
  with d h show ?thesis by blast
qed

theorem handoff_at_most_once_witness:
  "drive ([TIMER, TIMER] @ [TIMER, OTHER, TIMER])
      (snd (projr (invoke [mk_action ''A'' 0 0 []] (fresh False))))
     = drive [TIMER, TIMER] (snd (projr (invoke [mk_action ''A'' 0 0 []] (fresh False))))
   \<and> fst (projr (drive [TIMER, TIMER]
        (snd (projr (invoke [mk_action ''A'' 0 0 []] (fresh False)))))) = FINISHED
   \<and> handoffs (snd (projr (drive [TIMER, TIMER]
        (snd (projr (invoke [mk_action ''A'' 0 0 []] (fresh False)))))))
       = [[(''A'', 0)]]"
proof -
  let ?acts = "[mk_action ''A'' 0 0 []]"
  let ?s0 = "snd (projr (invoke ?acts (fresh False)))"
  let ?r = "fst (projr (drive [TIMER, TIMER] ?s0))"
  let ?s' = "snd (projr (drive [TIMER, TIMER] ?s0))"
  note defs = invoke_def setup_next_action_eq Let_def fresh_def mk_action_def
        modal_def process_step_def finish_def FrameEnumerator_def interval_count_def upto.simps
  have a: "invoke ?acts (fresh False) = Inr (RUNNING_MODAL, ?s0)"
    by (simp add: invoke_def setup_next_action_eq Let_def fresh_def)
  have b: "drive [TIMER, TIMER] ?s0 = Inr (?r, ?s')"
    by (simp add: defs)
  have c: "?r = FINISHED" "animation_descs ?s' = [(''A'', 0)]" "handoffs (fresh False) = []"
    by (simp_all add: defs)
  from handoff_at_most_once [OF a, of "[TIMER, TIMER]" "[TIMER, OTHER, TIMER]"] b c
  show ?thesis by auto
qed

theorem finished_tick_counterexample:
  "fst (projr (drive [TIMER, TIMER]
       (snd (projr (invoke [mk_action ''A'' 0 0 []] (fresh False))))))
     = FINISHED
   \<and> fst (projr (modal TIMER (snd (projr (drive [TIMER, TIMER]
       (snd (projr (invoke [mk_action ''A'' 0 0 []] (fresh False)))))))))
     = FINISHED
   \<and> handoffs (snd (projr (drive [TIMER, TIMER]
       (snd (projr (invoke [mk_action ''A'' 0 0 []] (fresh False)))))))
     = [[(''A'', 0)]]
   \<and> handoffs (snd (projr (modal TIMER (snd (projr (drive [TIMER, TIMER]
       (snd (projr (invoke [mk_action ''A'' 0 0 []] (fresh False))))))))))
     = [[(''A'', 0)], [(''A'', 0)]]
   \<and> action_index (snd (projr (drive [TIMER, TIMER]
       (snd (projr (invoke [mk_action ''A'' 0 0 []] (fresh False)))))))
     = 1
   \<and> action_index (snd (projr (modal TIMER (snd (projr (drive [TIMER, TIMER]
       (snd (projr (invoke [mk_action ''A'' 0 0 []] (fresh False))))))))))
     = 2"
  by (simp add: invoke_def setup_next_action_eq Let_def fresh_def mk_action_def
        modal_def process_step_def finish_def FrameEnumerator_def interval_count_def upto.simps)

text \<open>
  C9 (as amended). When \<open>ESC\<close> arrives while the operator is running, at any point of the
  action list, \<open>modal\<close> calls \<open>cancel\<close> and answers \<open>CANCELLED\<close>: the timer is removed,
  \<open>rendering\<close> is cleared, \<open>finish\<close> has not been and is not invoked, the success flag is
  false, and the driving loop passes no later event to the operator. A second \<open>cancel\<close>
  changes nothing but the report log. The operator has no guard of its own: the
  counterexample passes a timer tick to \<open>modal\<close> in the cancelled state, which renders the
  next frame and moves the queue position on.
\<close>

theorem cancel_during_run:
  assumes "invoke acts s = Inr (RUNNING_MODAL, s0)"
      and "drive es s0 = Inr (PASS_THROUGH, s1)"
  shows "drive (es @ ESC # es') s0 = Inr (cancel s1)
       \<and> fst (cancel s1) = CANCELLED
       \<and> handoffs (snd (cancel s1)) = handoffs s
       \<and> \<not> success (snd (cancel s1))
       \<and> \<not> rendering (snd (cancel s1))
       \<and> \<not> timer (snd (cancel s1))
       \<and> snd (cancel (snd (cancel s1)))
           = (snd (cancel s1))\<lparr>reports := reports (snd (cancel s1))
                                    @ [(''INFO'', ''Render Cancelled'')]\<rparr>"
proof -
  let ?b = "s\<lparr>actions := acts\<rparr>"
  from assms(1) have ne: "acts \<noteq> []"
    by (auto simp: invoke_def Let_def)
  from invoke_run [OF ne, of s] assms(1) have i: "run_inv ?b s0" by auto
  from drive_run [OF i, of es] assms(2) have r: "run_inv ?b s1" by auto
  have d: "drive (es @ ESC # es') s0 = Inr (cancel s1)"
    using assms(2) by (simp add: drive_append modal_def cancel_def)
  from r have "handoffs s1 = handoffs s" "\<not> success s1"
    unfolding run_inv_def by auto
  with d show ?thesis by (simp add: cancel_def)
qed

theorem cancel_during_run_witness:
  "drive ([TIMER, TIMER] @ ESC # [TIMER, TIMER])
      (snd (projr (invoke [mk_action ''A'' 0 10 []] (fresh False))))
     = Inr (cancel (snd (projr (drive [TIMER, TIMER]
         (snd (projr (invoke [mk_action ''A'' 0 10 []] (fresh False))))))))
   \<and> handoffs (snd (cancel (snd (projr (drive [TIMER, TIMER]
         (snd (projr (invoke [mk_action ''A'' 0 10 []] (fresh False)))))))))
     = []
   \<and> \<not> success (snd (cancel (snd (projr (drive [TIMER, TIMER]
         (snd (projr (invoke [mk_action ''A'' 0 10 []] (fresh False)))))))))"
proof -
  let ?acts = "[mk_action ''A'' 0 10 []]"
  let ?s0 = "snd (projr (invoke ?acts (fresh False)))"
  let ?s1 = "snd (projr (drive [TIMER, TIMER] ?s0))"
  note defs = invoke_def setup_next_action_eq Let_def fresh_def mk_action_def
        modal_def process_step_def FrameEnumerator_def interval_count_def upto.simps
  have a: "invoke ?acts (fresh False) = Inr (RUNNING_MODAL, ?s0)"
    by (simp add: invoke_def setup_next_action_eq Let_def fresh_def)
  have b: "drive [TIMER, TIMER] ?s0 = Inr (PASS_THROUGH, ?s1)"
    by (simp add: defs)
  have c: "handoffs (fresh False) = []" by (simp add: fresh_def)
  from cancel_during_run [OF a b, of "[TIMER, TIMER]"] c show ?thesis by simp
qed

theorem cancelled_tick_counterexample:
  "fst (projr (drive [TIMER, ESC]
       (snd (projr (invoke [mk_action ''A'' 0 10 []] (fresh False))))))
     = CANCELLED
   \<and> rendered (snd (projr (drive [TIMER, ESC]
       (snd (projr (invoke [mk_action ''A'' 0 10 []] (fresh False)))))))
     = [0]
   \<and> fst (projr (modal TIMER (snd (projr (drive [TIMER, ESC]
       (snd (projr (invoke [mk_action ''A'' 0 10 []] (fresh False)))))))))
     = PASS_THROUGH
   \<and> rendered (snd (projr (modal TIMER (snd (projr (drive [TIMER, ESC]
       (snd (projr (invoke [mk_action ''A'' 0 10 []] (fresh False))))))))))
     = [0, 1]
   \<and> frame_queue_index (snd (projr (drive [TIMER, ESC]
       (snd (projr (invoke [mk_action ''A'' 0 10 []] (fresh False)))))))
     = 1
   \<and> frame_queue_index (snd (projr (modal TIMER (snd (projr (drive [TIMER, ESC]
       (snd (projr (invoke [mk_action ''A'' 0 10 []] (fresh False))))))))))
     = 2"
  by (simp add: invoke_def setup_next_action_eq Let_def fresh_def mk_action_def
        modal_def process_step_def cancel_def FrameEnumerator_def interval_count_def upto.simps)

section \<open>Starting on an empty action list\<close>

text \<open>
  C3 (as amended). \<open>invoke\<close> on an empty action list reports the warning and answers
  \<open>CANCELLED\<close> after its initialisation step, not before it: no action is set up, no timer
  is registered, nothing is rendered or handed off and the frame queue is left as it was,
  while the success flag, the action total, the action list, the action index, the
  descriptor list and the cumulative count are reset. The counterexample starts from the
  state an earlier successful run has left and shows the fields that change.
\<close>

theorem invoke_empty:
  "\<exists>s'. invoke [] s = Inr (CANCELLED, s')
      \<and> reports s' = reports s @ [(''WARNING'', ''No actions found'')]
      \<and> timer s' = timer s
      \<and> rendered s' = rendered s
      \<and> handoffs s' = handoffs s
      \<and> frame_queue s' = frame_queue s
      \<and> frame_queue_index s' = frame_queue_index s
      \<and> \<not> success s'
      \<and> actionTotal s' = 0
      \<and> actions s' = []
      \<and> action_index s' = 0
      \<and> animation_descs s' = []
      \<and> global_frame_end s' = 0"
  by (simp add: invoke_def Let_def)

theorem invoke_empty_counterexample:
  "fst (projr (invoke [] (fresh False\<lparr>success := True, action_index := 1,
        animation_descs := [(''A'', 10)], global_frame_end := 10\<rparr>))) = CANCELLED
   \<and> \<not> rendering (fresh False\<lparr>success := True, action_index := 1,
        animation_descs := [(''A'', 10)], global_frame_end := 10\<rparr>)
   \<and> rendering (snd (projr (invoke [] (fresh False\<lparr>success := True, action_index := 1,
        animation_descs := [(''A'', 10)], global_frame_end := 10\<rparr>))))
   \<and> \<not> success (snd (projr (invoke [] (fresh False\<lparr>success := True, action_index := 1,
        animation_descs := [(''A'', 10)], global_frame_end := 10\<rparr>))))
   \<and> action_index (snd (projr (invoke [] (fresh False\<lparr>success := True, action_index := 1,
        animation_descs := [(''A'', 10)], global_frame_end := 10\<rparr>)))) = 0
   \<and> animation_descs (snd (projr (invoke [] (fresh False\<lparr>success := True, action_index := 1,
        animation_descs := [(''A'', 10)], global_frame_end := 10\<rparr>)))) = []
   \<and> global_frame_end (snd (projr (invoke [] (fresh False\<lparr>success := True, action_index := 1,
        animation_descs := [(''A'', 10)], global_frame_end := 10\<rparr>)))) = 0
   \<and> snd (projr (invoke [] (fresh False\<lparr>success := True, action_index := 1,
        animation_descs := [(''A'', 10)], global_frame_end := 10\<rparr>)))
      \<noteq> fresh False\<lparr>success := True, action_index := 1,
        animation_descs := [(''A'', 10)], global_frame_end := 10\<rparr>"
  by (simp add: invoke_def Let_def fresh_def)

end
